theory Spec2Isabelle
  imports Main "HOL-Library.Word"
begin

section \<open>Go values shared by the client model\<close>

text \<open>
  A Go \<open>error\<close> value is modelled by its message; a nil error is \<open>None\<close>.
  A function returning \<open>(T, error)\<close> is a pair, as in the source, and a runtime panic
  (nil dereference, index out of range, explicit \<open>panic\<close>) is the outcome \<open>Panic\<close>.
\<close>

type_synonym go_error = string

datatype 'a outcome = Return 'a | Panic

section \<open>client/api\_basic.go: latest block queries\<close>

record header =
  Height :: "64 word"

record block =
  Header :: header

text \<open>\<open>ctypes.ResultBlock\<close>: the field \<open>Block\<close> is a pointer and may be nil.\<close>

record result_block =
  Block :: "block option"

text \<open>
  The answer of \<open>c.chainClient.GetBlock(ctx, nil)\<close> is the environment's: either an
  error or a result block. \<open>GetLatestBlock\<close> passes the error on.
\<close>

definition GetLatestBlock :: "go_error + result_block \<Rightarrow> block option \<times> go_error option" where
  "GetLatestBlock getBlock =
     (case getBlock of
        Inl err \<Rightarrow> (None, Some err)
      | Inr res \<Rightarrow> (Block res, None))"

text \<open>
  \<open>GetLatestBlockHeight\<close>: on \<open>err != nil\<close> the source returns \<open>0, nil\<close>; otherwise it
  reads \<open>resp.Header.Height\<close>, which dereferences \<open>resp\<close>.
\<close>

definition GetLatestBlockHeight :: "go_error + result_block \<Rightarrow> (64 word \<times> go_error option) outcome" where
  "GetLatestBlockHeight getBlock =
     (case GetLatestBlock getBlock of
        (resp, Some err) \<Rightarrow> Return (0, None)
      | (None, None) \<Rightarrow> Panic
      | (Some b, None) \<Rightarrow> Return (Height (Header b), None))"

section \<open>client/api\_crosschain.go: mirroring resources\<close>

type_synonym address = string

text \<open>\<open>sdkmath.Uint\<close> is an unsigned big integer.\<close>

type_synonym uint = nat

text \<open>The messages of the storage module that the mirror calls can build.\<close>

datatype msg =
    MsgMirrorGroup address uint
  | MsgMirrorBucket address uint
  | MsgMirrorObject address uint

definition NewMsgMirrorGroup :: "address \<Rightarrow> uint \<Rightarrow> msg" where
  "NewMsgMirrorGroup operator ident = MsgMirrorGroup operator ident"

definition NewMsgMirrorBucket :: "address \<Rightarrow> uint \<Rightarrow> msg" where
  "NewMsgMirrorBucket operator ident = MsgMirrorBucket operator ident"

record tx_option =
  GasLimit :: "64 word"
  Memo :: string
  Nonce :: "64 word"

record tx_response =
  TxHash :: string

record broadcast_tx_response =
  TxResponse :: "tx_response option"

record account =
  GetAddress :: address

text \<open>
  The chain keeps the list of broadcast calls it received; what it answers to a call is
  the field \<open>respond\<close> of the chain client.
\<close>

record chain =
  broadcasts :: "(msg list \<times> tx_option) list"

record chain_client =
  respond :: "msg list \<Rightarrow> tx_option \<Rightarrow> go_error + broadcast_tx_response"

record client =
  chainClient :: chain_client
  defaultAccount :: "account option"

definition BroadcastTx ::
  "chain_client \<Rightarrow> chain \<Rightarrow> msg list \<Rightarrow> tx_option \<Rightarrow> (go_error + broadcast_tx_response) \<times> chain" where
  "BroadcastTx cc st msgs txOpt =
     (respond cc msgs txOpt, st\<lparr>broadcasts := broadcasts st @ [(msgs, txOpt)]\<rparr>)"

definition MustGetDefaultAccount :: "client \<Rightarrow> account outcome" where
  "MustGetDefaultAccount c =
     (case defaultAccount c of None \<Rightarrow> Panic | Some a \<Rightarrow> Return a)"

text \<open>The common tail of the three mirror calls: broadcast one message, unwrap the answer.\<close>

definition broadcast_one ::
  "client \<Rightarrow> chain \<Rightarrow> msg \<Rightarrow> tx_option \<Rightarrow> (tx_response option \<times> go_error option) \<times> chain" where
  "broadcast_one c st m txOption =
     (case BroadcastTx (chainClient c) st [m] txOption of
        (Inl err, st') \<Rightarrow> ((None, Some err), st')
      | (Inr txResp, st') \<Rightarrow> ((TxResponse txResp, None), st'))"

definition MirrorGroup ::
  "client \<Rightarrow> chain \<Rightarrow> uint \<Rightarrow> tx_option \<Rightarrow> ((tx_response option \<times> go_error option) \<times> chain) outcome" where
  "MirrorGroup c st groupId txOption =
     (case MustGetDefaultAccount c of
        Panic \<Rightarrow> Panic
      | Return a \<Rightarrow>
          (let msgMirrorGroup = NewMsgMirrorGroup (GetAddress a) groupId
           in Return (broadcast_one c st msgMirrorGroup txOption)))"

definition MirrorBucket ::
  "client \<Rightarrow> chain \<Rightarrow> uint \<Rightarrow> tx_option \<Rightarrow> ((tx_response option \<times> go_error option) \<times> chain) outcome" where
  "MirrorBucket c st bucketId txOption =
     (case MustGetDefaultAccount c of
        Panic \<Rightarrow> Panic
      | Return a \<Rightarrow>
          (let msgMirrorBucket = NewMsgMirrorBucket (GetAddress a) bucketId
           in Return (broadcast_one c st msgMirrorBucket txOption)))"

definition MirrorObject ::
  "client \<Rightarrow> chain \<Rightarrow> uint \<Rightarrow> tx_option \<Rightarrow> ((tx_response option \<times> go_error option) \<times> chain) outcome" where
  "MirrorObject c st objectId txOption =
     (case MustGetDefaultAccount c of
        Panic \<Rightarrow> Panic
      | Return a \<Rightarrow>
          (let msgMirrorBucket = NewMsgMirrorBucket (GetAddress a) objectId
           in Return (broadcast_one c st msgMirrorBucket txOption)))"


section \<open>Integrity hashing: \<open>GetPieceHashRoots\<close>\<close>

type_synonym bytes = "8 word list"

datatype redundancy_type = REDUNDANCY_EC_TYPE | REDUNDANCY_REPLICA_TYPE

text \<open>
  \<open>GetPieceHashRoots\<close> (the same body in both client packages) calls the hashing library
  and splits its answer: on an error it returns \<open>nil, nil, 0, REDUNDANCY_EC_TYPE, err\<close>,
  otherwise \<open>pieceHashRoots[0], pieceHashRoots[1:], size, redundancyType, nil\<close>. Indexing
  an empty answer panics. The library function \<open>hashlib.ComputeIntegrityHash\<close> belongs to
  another module (\<open>greenfield-common/go/hash\<close>); it is the parameter \<open>hasher\<close>, and the
  \<open>io.Reader\<close> it consumes is left abstract. The receiver is passed as in the source.
\<close>

definition GetPieceHashRoots ::
  "client \<Rightarrow> ('r \<Rightarrow> int \<Rightarrow> int \<Rightarrow> int \<Rightarrow> bytes list \<times> int \<times> redundancy_type \<times> 'e option) \<Rightarrow>
   'r \<Rightarrow> int \<Rightarrow> int \<Rightarrow> int \<Rightarrow>
   (bytes option \<times> bytes list option \<times> int \<times> redundancy_type \<times> 'e option) outcome" where
  "GetPieceHashRoots c hasher rd segSize dataShards parityShards =
     (case hasher rd segSize dataShards parityShards of
        (pieceHashRoots, objectSize, redundancyType, Some err) \<Rightarrow>
          Return (None, None, 0, REDUNDANCY_EC_TYPE, Some err)
      | (pieceHashRoots, objectSize, redundancyType, None) \<Rightarrow>
          (case pieceHashRoots of
             [] \<Rightarrow> Panic
           | primary # secondary \<Rightarrow>
               Return (Some primary, Some secondary, objectSize, redundancyType, None)))"

section \<open>The transfer engine described by the specification\<close>

text \<open>
  The resumable transfer engine (segmenter, checkpoint store, upload and download
  orchestrators) is exercised by the end-to-end tests but its code is not among the
  sources. The definitions of this section follow the specification; the two
  fault-injection hooks, the part-size option and the sizes of the test objects follow the
  tests.
\<close>

text \<open>
  Modelled from the spec: the error taxonomy of the transfer engine. \<open>TransferAborted\<close>
  carries the index of the segment that exhausted its retries and that segment's last
  error.
\<close>

datatype transfer_error =
    InvalidConfiguration
  | IOFailure go_error
  | CorruptCheckpoint
  | TransferAborted nat go_error
  | IntegrityMismatch

subsection \<open>Segmenter\<close>

text \<open>
  Modelled from the spec: a segment descriptor \<open>(index, startOffset, length)\<close>; the
  Segmenter is not part of the sources.
\<close>

record segment =
  seg_index :: nat
  startOffset :: nat
  seg_length :: nat

text \<open>
  Modelled from the spec: the number of segments of an object, the last one possibly
  short.
\<close>

definition parts_count :: "nat \<Rightarrow> nat \<Rightarrow> nat" where
  "parts_count objectSize partSize =
     (if objectSize mod partSize = 0 then objectSize div partSize
      else objectSize div partSize + 1)"

text \<open>
  Modelled from the spec: segment \<open>i\<close> starts at \<open>i * partSize\<close>; every segment has the
  part size, except that the final segment's length is \<open>size mod partSize\<close>, or the full
  part size if evenly divisible.
\<close>

definition segment_at :: "nat \<Rightarrow> nat \<Rightarrow> nat \<Rightarrow> segment" where
  "segment_at objectSize partSize i =
     \<lparr>seg_index = i,
      startOffset = i * partSize,
      seg_length =
        (if Suc i = parts_count objectSize partSize
         then (if objectSize mod partSize = 0 then partSize else objectSize mod partSize)
         else partSize)\<rparr>"

text \<open>
  Modelled from the spec: the sequence of descriptors, restartable from any segment index
  \<open>k\<close> without deriving the earlier segments.
\<close>

definition segments_from :: "nat \<Rightarrow> nat \<Rightarrow> nat \<Rightarrow> segment list" where
  "segments_from objectSize partSize k =
     map (segment_at objectSize partSize) [k..<parts_count objectSize partSize]"

text \<open>
  Modelled from the spec: the Segmenter's contract. A part size \<open>\<le> 0\<close> or greater than the
  object size fails with \<open>InvalidConfiguration\<close>; otherwise the zero-indexed descriptors from
  index \<open>k\<close> on are produced.
\<close>

definition Segmenter :: "int \<Rightarrow> int \<Rightarrow> nat \<Rightarrow> transfer_error + segment list" where
  "Segmenter objectSize partSize k =
     (if partSize \<le> 0 \<or> partSize > objectSize then Inl InvalidConfiguration
      else Inr (segments_from (nat objectSize) (nat partSize) k))"

subsection \<open>Checkpoint Store\<close>

text \<open>
  Modelled from the spec: the Checkpoint Store is not part of the sources. A checkpoint
  maps a transfer identity (bucket, object, part size) to a resume offset in bytes.
\<close>

type_synonym transfer_key = "string \<times> string \<times> nat"

type_synonym checkpoint_store = "transfer_key \<Rightarrow> nat option"

definition key_part_size :: "transfer_key \<Rightarrow> nat" where
  "key_part_size key = snd (snd key)"

text \<open>
  Modelled from the spec: \<open>Load\<close> returns the resume offset and whether a checkpoint exists;
  an offset beyond the total size or not aligned to the part size fails with
  \<open>CorruptCheckpoint\<close>.
\<close>

definition Load :: "checkpoint_store \<Rightarrow> transfer_key \<Rightarrow> nat \<Rightarrow> transfer_error + nat \<times> bool" where
  "Load store key totalSize =
     (case store key of
        None \<Rightarrow> Inr (0, False)
      | Some off \<Rightarrow>
          (if off > totalSize \<or> off mod key_part_size key \<noteq> 0 then Inl CorruptCheckpoint
           else Inr (off, True)))"

text \<open>Modelled from the spec: \<open>Save\<close> and \<open>Clear\<close> write and delete the entry of a key.\<close>

definition Save :: "checkpoint_store \<Rightarrow> transfer_key \<Rightarrow> nat \<Rightarrow> checkpoint_store" where
  "Save store key completedOffset = store(key \<mapsto> completedOffset)"

definition Clear :: "checkpoint_store \<Rightarrow> transfer_key \<Rightarrow> checkpoint_store" where
  "Clear store key = store(key := None)"

text \<open>
  Modelled from the spec: the offset a checkpoint entry holds, 0 when there is none.
\<close>

definition persisted :: "checkpoint_store \<Rightarrow> transfer_key \<Rightarrow> nat" where
  "persisted store key = (case store key of None \<Rightarrow> 0 | Some off \<Rightarrow> off)"

subsection \<open>Transfer state\<close>

text \<open>
  Modelled from the spec: what a transfer reads and writes. The checkpoint entries of
  uploads and of downloads, the bytes the storage provider holds for each (bucket, object),
  and the local files that downloads write.
\<close>

record transfer_state =
  checkpoints :: checkpoint_store
  download_checkpoints :: checkpoint_store
  remote :: "string \<times> string \<Rightarrow> bytes"
  files :: "string \<Rightarrow> bytes"

text \<open>
  Modelled from the spec: the in-memory transfer session, the indices of the acknowledged
  segments.
\<close>

record session =
  acked :: "nat set"

subsection \<open>Upload Orchestrator\<close>

text \<open>
  The upload orchestrator is not part of the sources (its end-to-end test is). Each segment
  goes \<open>Pending \<rightarrow> Sending \<rightarrow> Acked | Failed\<close>; a failed segment is retried with the same
  content up to the attempt limit; exhausting the limit aborts the transfer with the
  segment's last error and leaves the checkpoint as it is. On every acknowledgement the
  checkpoint is set to the high-water offset: the end of the longest prefix of segments
  that are all acknowledged. On completion the checkpoint is cleared.
\<close>

text \<open>
  Modelled from the spec: a segment is attempted, and after a failure attempted again, at
  most \<open>Suc retries\<close> times in all; the result is \<open>None\<close> for \<open>Acked\<close> or the last error for
  \<open>Failed\<close>.
\<close>

fun attempt_send :: "(nat \<Rightarrow> go_error option) \<Rightarrow> nat \<Rightarrow> nat \<Rightarrow> go_error option" where
  "attempt_send try a 0 = try a"
| "attempt_send try a (Suc retries) =
     (case try a of None \<Rightarrow> None | Some err \<Rightarrow> attempt_send try (Suc a) retries)"

text \<open>
  Modelled from the spec: sending segment \<open>i\<close> within the attempt limit. An attempt fails
  when the fault-injection hook fails or when the network \<open>net\<close> fails attempt \<open>a\<close> of
  segment \<open>i\<close>. The hook is called with the part number, which starts at 1: in the
  end-to-end test the hook that fails \<open>id == 2\<close> leaves the upload offset at one part size.
\<close>

definition send_segment ::
  "(int \<Rightarrow> go_error option) \<Rightarrow> (nat \<Rightarrow> nat \<Rightarrow> go_error option) \<Rightarrow> nat \<Rightarrow> nat \<Rightarrow> go_error option" where
  "send_segment hook net limit i =
     attempt_send
       (\<lambda>a. case hook (int i + 1) of Some err \<Rightarrow> Some err | None \<Rightarrow> net i a) 0 (limit - 1)"


text \<open>
  Modelled from the spec: the default hook \<open>client.DefaultUploadSegment\<close>, named by the test,
  is a no-op.
\<close>

definition DefaultUploadSegment :: "int \<Rightarrow> go_error option" where
  "DefaultUploadSegment ident = None"

text \<open>Modelled from the spec: a network on which no attempt fails.\<close>

definition no_faults :: "nat \<Rightarrow> nat \<Rightarrow> go_error option" where
  "no_faults i a = None"

text \<open>
  Modelled from the spec: the end of the run of acknowledged segments that starts at index
  \<open>j\<close>, looking at most \<open>fuel\<close> segments ahead.
\<close>

fun contiguous :: "nat set \<Rightarrow> nat \<Rightarrow> nat \<Rightarrow> nat" where
  "contiguous A j 0 = j"
| "contiguous A j (Suc fuel) = (if j \<in> A then contiguous A (Suc j) fuel else j)"

text \<open>
  Modelled from the spec: the high-water mark, the number of segments in the longest
  acknowledged prefix of the \<open>n\<close> segments.
\<close>

definition high_water :: "nat set \<Rightarrow> nat \<Rightarrow> nat" where
  "high_water A n = contiguous A 0 n"

text \<open>
  Modelled from the spec: on \<open>Acked\<close> the orchestrator records the segment and updates the
  Checkpoint Store with the new high-water offset, in bytes, never beyond the object size.
\<close>

definition on_acked ::
  "transfer_key \<Rightarrow> nat \<Rightarrow> nat \<Rightarrow> session \<times> transfer_state \<Rightarrow> session \<times> transfer_state" where
  "on_acked key objectSize i = (\<lambda>(sess, st).
     (let partSize = key_part_size key;
          acked' = insert i (acked sess);
          hw = high_water acked' (parts_count objectSize partSize);
          off = min (hw * partSize) objectSize
      in (sess\<lparr>acked := acked'\<rparr>, st\<lparr>checkpoints := Save (checkpoints st) key off\<rparr>)))"

text \<open>
  Modelled from the spec: segments may complete in any order; their acknowledgements are
  processed one at a time by the single checkpoint writer.
\<close>

definition run_acks ::
  "transfer_key \<Rightarrow> nat \<Rightarrow> nat list \<Rightarrow> session \<times> transfer_state \<Rightarrow> session \<times> transfer_state" where
  "run_acks key objectSize evs s = foldl (\<lambda>s i. on_acked key objectSize i s) s evs"

text \<open>
  Modelled from the spec: opening a transfer. A corrupt checkpoint is dropped and the
  transfer restarts from offset 0; otherwise it resumes at the stored offset.
\<close>

definition begin_transfer :: "transfer_key \<Rightarrow> nat \<Rightarrow> transfer_state \<Rightarrow> nat \<times> transfer_state" where
  "begin_transfer key objectSize st =
     (case Load (checkpoints st) key objectSize of
        Inl err \<Rightarrow> (0, st\<lparr>checkpoints := Clear (checkpoints st) key\<rparr>)
      | Inr (off, ex) \<Rightarrow> (off, st))"

text \<open>Modelled from the spec: the index of the first segment to send.\<close>

definition resume_index :: "transfer_key \<Rightarrow> nat \<Rightarrow> transfer_state \<Rightarrow> nat" where
  "resume_index key objectSize st = fst (begin_transfer key objectSize st) div key_part_size key"

text \<open>
  Modelled from the spec: the session of a transfer that opens; the segments below the
  resume offset count as acknowledged.
\<close>

definition open_session :: "transfer_key \<Rightarrow> nat \<Rightarrow> transfer_state \<Rightarrow> session \<times> transfer_state" where
  "open_session key objectSize st =
     (\<lparr>acked = {0..<resume_index key objectSize st}\<rparr>, snd (begin_transfer key objectSize st))"

text \<open>
  Modelled from the spec: the part size of a transfer. The caller's option is an unsigned
  integer (\<open>uint64\<close> in the end-to-end test), 0 when it is left unset; an unset part size
  stands for the default of 16 MiB (section 3). The tests upload and download with the
  option unset and require success.
\<close>

definition DefaultPartSize :: nat where
  "DefaultPartSize = 16 * 1024 * 1024"

definition effective_part_size :: "nat \<Rightarrow> nat" where
  "effective_part_size partSize = (if partSize = 0 then DefaultPartSize else partSize)"

text \<open>
  Modelled from the spec: the segments of a transfer, from segment index \<open>k\<close> on. Section
  4.1 has the Segmenter reject a part size greater than the object size, while section 8
  has an object of 20 MiB with a part size of 32 MiB transferred as effectively one
  segment, and e2e/e2e\_storage\_test.go uploads an object smaller than the default part
  size and requires success. So an object shorter than the part size is transferred as one
  short segment without the Segmenter, and every other transfer takes its segments from
  the Segmenter.
\<close>

definition transfer_plan :: "nat \<Rightarrow> nat \<Rightarrow> nat \<Rightarrow> transfer_error + segment list" where
  "transfer_plan totalSize partSize k =
     (if totalSize < partSize
      then Inr (if k = 0 \<and> 0 < totalSize
                then [\<lparr>seg_index = 0, startOffset = 0, seg_length = totalSize\<rparr>] else [])
      else Segmenter (int totalSize) (int partSize) k)"

text \<open>
  Modelled from the spec: \<open>Load\<close> as the orchestrators call it. The alignment check divides
  the stored offset by the part size, and in Go an integer division by zero panics.
\<close>

definition load_checkpoint ::
  "checkpoint_store \<Rightarrow> transfer_key \<Rightarrow> nat \<Rightarrow> (transfer_error + nat \<times> bool) outcome" where
  "load_checkpoint store key totalSize =
     (case store key of
        None \<Rightarrow> Return (Load store key totalSize)
      | Some off \<Rightarrow>
          (if key_part_size key = 0 then Panic else Return (Load store key totalSize)))"

text \<open>
  Modelled from the spec: the bytes of a segment, \<open>content[off : off + len]\<close>. In Go a slice
  that reaches beyond the buffer panics.
\<close>

definition slice_bytes :: "bytes \<Rightarrow> nat \<Rightarrow> nat \<Rightarrow> bytes outcome" where
  "slice_bytes content off len =
     (if off + len \<le> length content then Return (take len (drop off content)) else Panic)"

text \<open>
  Modelled from the spec: the storage provider is outside the specification's scope; it
  is taken to keep, for each object, the bytes received so far and to store a segment's
  bytes at the segment's offset, over whatever it held there.
\<close>

definition write_at :: "bytes \<Rightarrow> nat \<Rightarrow> bytes \<Rightarrow> bytes" where
  "write_at old off bs = take off old @ bs @ drop (off + length bs) old"

definition store_segment :: "transfer_key \<Rightarrow> segment \<Rightarrow> bytes \<Rightarrow> transfer_state \<Rightarrow> transfer_state" where
  "store_segment key seg bs st =
     (let obj = (fst key, fst (snd key))
      in st\<lparr>remote := (remote st)(obj := write_at (remote st obj) (startOffset seg) bs)\<rparr>)"

text \<open>
  Modelled from the spec: the segments are sent one after the other (a worker pool of
  degree 1); the first segment that exhausts its attempts aborts the transfer and leaves
  the checkpoint where the last acknowledgement put it.
\<close>

fun upload_segments ::
  "(int \<Rightarrow> go_error option) \<Rightarrow> (nat \<Rightarrow> nat \<Rightarrow> go_error option) \<Rightarrow> nat \<Rightarrow> transfer_key \<Rightarrow> bytes \<Rightarrow>
   segment list \<Rightarrow> session \<times> transfer_state \<Rightarrow>
   (transfer_error option \<times> session \<times> transfer_state) outcome" where
  "upload_segments hook net limit key content [] s = Return (None, s)"
| "upload_segments hook net limit key content (seg # rest) s =
     (case slice_bytes content (startOffset seg) (seg_length seg) of
        Panic \<Rightarrow> Panic
      | Return bs \<Rightarrow>
          (case send_segment hook net limit (seg_index seg) of
             Some err \<Rightarrow> Return (Some (TransferAborted (seg_index seg) err), s)
           | None \<Rightarrow>
               upload_segments hook net limit key content rest
                 (on_acked key (length content) (seg_index seg)
                    (fst s, store_segment key seg bs (snd s)))))"

text \<open>
  Modelled from the spec: the resumable upload \<open>PutObject\<close> of the bytes \<open>content\<close> with the
  caller's part-size option. The transfer key is (bucket, object, part size); the
  checkpoint is loaded, the session opens at the resume point that \<open>Load\<close> gives
  (\<open>resume_index\<close>, \<open>open_session\<close>), and the segments from there on are sent. A bad
  configuration is reported before anything is sent; an aborted transfer keeps its
  checkpoint; on completion the checkpoint is cleared. The remote rejection
  \<open>IntegrityMismatch\<close> is not modelled: the storage provider here accepts every segment.
\<close>

definition PutObject ::
  "(int \<Rightarrow> go_error option) \<Rightarrow> (nat \<Rightarrow> nat \<Rightarrow> go_error option) \<Rightarrow> nat \<Rightarrow>
   string \<Rightarrow> string \<Rightarrow> bytes \<Rightarrow> nat \<Rightarrow> transfer_state \<Rightarrow>
   (transfer_error option \<times> transfer_state) outcome" where
  "PutObject hook net limit bucketName objectName content partSize st =
     (let key = (bucketName, objectName, effective_part_size partSize);
          objectSize = length content
      in case load_checkpoint (checkpoints st) key objectSize of
           Panic \<Rightarrow> Panic
         | Return loaded \<Rightarrow>
             (case transfer_plan objectSize (key_part_size key)
                     (resume_index key objectSize st) of
                Inl err \<Rightarrow> Return (Some err, st)
              | Inr segments \<Rightarrow>
                  (case upload_segments hook net limit key content segments
                          (open_session key objectSize st) of
                     Panic \<Rightarrow> Panic
                   | Return (Some err, sess, st2) \<Rightarrow> Return (Some err, st2)
                   | Return (None, sess, st2) \<Rightarrow>
                       Return (None, st2\<lparr>checkpoints := Clear (checkpoints st2) key\<rparr>))))"






text \<open>The state in which nothing has been transferred yet.\<close>

definition fresh_state :: transfer_state where
  "fresh_state = \<lparr>checkpoints = (\<lambda>key. None), download_checkpoints = (\<lambda>key. None),
                   remote = (\<lambda>obj. []), files = (\<lambda>name. [])\<rparr>"

text \<open>
  Modelled from the spec: the upload offset that the test reads back is the persisted
  checkpoint offset of the transfer.
\<close>

definition GetObjectResumableUploadOffset :: "transfer_state \<Rightarrow> transfer_key \<Rightarrow> nat" where
  "GetObjectResumableUploadOffset st key = persisted (checkpoints st) key"

subsection \<open>Download Orchestrator\<close>

text \<open>
  The download orchestrator and the plain download are not part of the sources (their
  end-to-end test is). Given a byte range (the full object, or the bytes \<open>lo\<close> to \<open>hi\<close>
  inclusive, cut at the object's end) and a part size, the orchestrator issues ranged reads
  in part-sized chunks, checks each chunk's length, appends it to the destination file and
  saves the number of bytes written so far; a failed chunk is retried as in upload,
  exhausting the retries aborts and keeps the checkpoint; on completion the checkpoint is
  cleared.
\<close>

text \<open>Modelled from the spec: the storage provider's answer to a ranged read.\<close>

definition read_range :: "bytes \<Rightarrow> nat \<Rightarrow> nat \<Rightarrow> bytes" where
  "read_range obj off len = take len (drop off obj)"



text \<open>
  Modelled from the spec: the default hook \<open>client.DefaultDownloadSegmentHook\<close>, named by
  the test, is a no-op.
\<close>

definition DefaultDownloadSegmentHook :: "int \<Rightarrow> go_error option" where
  "DefaultDownloadSegmentHook seg = None"

text \<open>
  Modelled from the spec: fetching chunk \<open>i\<close> within the attempt limit, retried the same
  way as upload. The hook is keyed by the segment index.
\<close>

definition fetch_segment ::
  "(int \<Rightarrow> go_error option) \<Rightarrow> (nat \<Rightarrow> nat \<Rightarrow> go_error option) \<Rightarrow> nat \<Rightarrow> nat \<Rightarrow> go_error option" where
  "fetch_segment hook net limit i =
     attempt_send
       (\<lambda>a. case hook (int i) of Some err \<Rightarrow> Some err | None \<Rightarrow> net i a) 0 (limit - 1)"


text \<open>
  Modelled from the spec: the chunks are read one after the other; each chunk's length is
  checked against the expected range, the chunk is appended to the file and the number of
  bytes written so far is saved.
\<close>

fun download_chunks ::
  "(int \<Rightarrow> go_error option) \<Rightarrow> (nat \<Rightarrow> nat \<Rightarrow> go_error option) \<Rightarrow> nat \<Rightarrow> transfer_key \<Rightarrow> bytes \<Rightarrow>
   string \<Rightarrow> nat \<Rightarrow> segment list \<Rightarrow> transfer_state \<Rightarrow> transfer_error option \<times> transfer_state" where
  "download_chunks hook net limit key obj fileName start [] st = (None, st)"
| "download_chunks hook net limit key obj fileName start (seg # rest) st =
     (case fetch_segment hook net limit (seg_index seg) of
        Some err \<Rightarrow> (Some (TransferAborted (seg_index seg) err), st)
      | None \<Rightarrow>
          (let chunk = read_range obj (start + startOffset seg) (seg_length seg)
           in if length chunk \<noteq> seg_length seg
              then (Some (IOFailure ''chunk length mismatch''), st)
              else download_chunks hook net limit key obj fileName start rest
                     (st\<lparr>files := (files st)(fileName := files st fileName @ chunk),
                         download_checkpoints :=
                           Save (download_checkpoints st) key
                             (startOffset seg + seg_length seg)\<rparr>)))"




subsection \<open>Invariants used in the proofs\<close>

text \<open>
  The persisted offset agrees with the session: it is the end of the acknowledged prefix.
\<close>

definition synced :: "transfer_key \<Rightarrow> nat \<Rightarrow> session \<times> transfer_state \<Rightarrow> bool" where
  "synced key objectSize s \<longleftrightarrow>
     persisted (checkpoints (snd s)) key =
       min (high_water (acked (fst s)) (parts_count objectSize (key_part_size key)) *
            key_part_size key) objectSize"


text \<open>
  The state of an upload that is about to send segment \<open>k\<close>: the segments below \<open>k\<close> are
  the acknowledged ones, the checkpoint is at their end, and the storage provider holds
  at least their bytes.
\<close>

definition upload_inv :: "transfer_key \<Rightarrow> bytes \<Rightarrow> nat \<Rightarrow> session \<times> transfer_state \<Rightarrow> bool" where
  "upload_inv key content k s \<longleftrightarrow>
     acked (fst s) = {0..<k} \<and>
     persisted (checkpoints (snd s)) key = min (k * key_part_size key) (length content) \<and>
     take (min (k * key_part_size key) (length content))
       (remote (snd s) (fst key, fst (snd key))) =
     take (k * key_part_size key) content"



subsection \<open>The test object\<close>

text \<open>
  e2e/e2e\_basic\_test.go, \<open>createBigObjectWithoutPutObject\<close>: the buffer is filled with the
  lines \<open>fmt.Sprintf("[%05d] %s\n", i, line)\<close> for \<open>i\<close> from 0 up to \<open>1024*3000\<close>, where
  \<open>line\<close> is \<open>types.RandStr(20)\<close>. Only the length of the buffer matters here; the length
  \<open>r\<close> of a random string is a parameter.
\<close>

fun decimal_digits :: "nat \<Rightarrow> nat" where
  "decimal_digits n = (if n < 10 then 1 else Suc (decimal_digits (n div 10)))"

declare decimal_digits.simps [simp del]

definition line_length :: "nat \<Rightarrow> nat \<Rightarrow> nat" where
  "line_length r i = 1 + max 5 (decimal_digits i) + 2 + r + 1"

definition buffer_length :: "nat \<Rightarrow> nat" where
  "buffer_length r = sum_list (map (line_length r) [0..<1024 * 3000])"

section \<open>Theorems\<close>

subsection \<open>Claims on the client code\<close>

text \<open>
  Claim C9. When fetching the latest block fails, \<open>GetLatestBlockHeight\<close> returns height
  0 with a nil error, whatever the error was; this is exactly what it returns for a chain
  whose latest block has height 0, so the caller cannot tell the two apart.
\<close>

theorem GetLatestBlockHeight_swallows_error:
  "GetLatestBlockHeight (Inl err) = Return (0, None) \<and>
   GetLatestBlockHeight (Inl err) =
     GetLatestBlockHeight (Inr \<lparr>Block = Some \<lparr>Header = \<lparr>Height = 0\<rparr>\<rparr>\<rparr>)"
  by (simp add: GetLatestBlockHeight_def GetLatestBlock_def)

text \<open>
  Claim C10. For every object id and transaction option, \<open>MirrorObject\<close> does exactly what
  \<open>MirrorBucket\<close> does for that id: with a default account set it appends one broadcast
  call carrying the single message \<open>MsgMirrorBucket\<close> (operator, id) to the chain's calls,
  and that message is not an object-mirroring message.
\<close>

theorem MirrorObject_broadcasts_MsgMirrorBucket:
  "MirrorObject c st objectId txOption = MirrorBucket c st objectId txOption \<and>
   (case defaultAccount c of
      None \<Rightarrow> MirrorObject c st objectId txOption = Panic
    | Some a \<Rightarrow>
        (\<exists>res. MirrorObject c st objectId txOption =
           Return (res, st\<lparr>broadcasts := broadcasts st @
                     [([MsgMirrorBucket (GetAddress a) objectId], txOption)]\<rparr>)) \<and>
        MsgMirrorBucket (GetAddress a) objectId \<noteq> MsgMirrorObject (GetAddress a) objectId)"
  by (cases "respond (chainClient c) [MsgMirrorBucket (GetAddress (the (defaultAccount c))) objectId] txOption")
     (auto simp: MirrorObject_def MirrorBucket_def MustGetDefaultAccount_def broadcast_one_def
        BroadcastTx_def NewMsgMirrorBucket_def split: option.splits)

subsection \<open>Segmenter\<close>

lemma parts_count_pos: "0 < p \<Longrightarrow> p \<le> s \<Longrightarrow> 0 < parts_count s p"
  by (auto simp: parts_count_def div_greater_zero_iff)

lemma length_segments_from [simp]: "length (segments_from s p k) = parts_count s p - k"
  by (simp add: segments_from_def)

lemma nth_segments_from [simp]:
  "k + i < parts_count s p \<Longrightarrow> segments_from s p k ! i = segment_at s p (k + i)"
  by (simp add: segments_from_def)

lemma segments_from_Cons:
  "k < parts_count s p \<Longrightarrow> segments_from s p k = segment_at s p k # segments_from s p (Suc k)"
  by (simp add: segments_from_def upt_conv_Cons)

lemma segments_from_done [simp]: "parts_count s p \<le> k \<Longrightarrow> segments_from s p k = []"
  by (simp add: segments_from_def)

lemma seg_length_before_last:
  "Suc i < parts_count s p \<Longrightarrow> seg_length (segment_at s p i) = p"
  by (simp add: segment_at_def)

lemma last_part_size:
  "0 < p \<Longrightarrow> parts_count s p = Suc m \<Longrightarrow>
   m * p + (if s mod p = 0 then p else s mod p) = s"
  by (auto simp: parts_count_def split: if_splits)

lemma parts_count_le: "0 < p \<Longrightarrow> i < parts_count s p \<Longrightarrow> i * p \<le> s"
proof -
  assume p: "0 < p" and i: "i < parts_count s p"
  then have "i \<le> s div p" by (auto simp: parts_count_def split: if_splits)
  then have "i * p \<le> (s div p) * p" by (rule mult_le_mono1)
  also have "\<dots> \<le> s" by simp
  finally show ?thesis .
qed

lemma segment_end:
  assumes "0 < p" "i < parts_count s p"
  shows "startOffset (segment_at s p i) + seg_length (segment_at s p i) = min (Suc i * p) s"
proof (cases "Suc i = parts_count s p")
  case True
  define l where "l = (if s mod p = 0 then p else s mod p)"
  have eq: "i * p + l = s"
    unfolding l_def using last_part_size [OF assms(1), of s i] True by simp
  have "l \<le> p"
    unfolding l_def using assms(1) by (simp add: less_imp_le)
  with eq have "s \<le> Suc i * p" by simp
  then have "min (Suc i * p) s = s" by simp
  moreover have "startOffset (segment_at s p i) + seg_length (segment_at s p i) = i * p + l"
    unfolding l_def segment_at_def using True by simp
  ultimately show ?thesis using eq by simp
next
  case False
  with assms(2) have "Suc i < parts_count s p" by simp
  from parts_count_le [OF assms(1) this] False show ?thesis
    by (simp add: segment_at_def min_def)
qed

lemma sum_list_const_upt: "(\<And>i. i < m \<Longrightarrow> f i = (c::nat)) \<Longrightarrow> sum_list (map f [0..<m]) = m * c"
  by (induction m) auto

lemma sum_seg_lengths:
  assumes "0 < p" "p \<le> s"
  shows "sum_list (map seg_length (segments_from s p 0)) = s"
proof -
  from parts_count_pos [OF assms] obtain m where n: "parts_count s p = Suc m"
    by (cases "parts_count s p") auto
  have "sum_list (map (\<lambda>i. seg_length (segment_at s p i)) [0..<m]) = m * p"
    by (rule sum_list_const_upt) (simp add: segment_at_def n)
  moreover have "seg_length (segment_at s p m) = (if s mod p = 0 then p else s mod p)"
    by (simp add: segment_at_def n)
  ultimately show ?thesis
    using last_part_size [OF assms(1) n]
    by (simp add: segments_from_def n comp_def)
qed

text \<open>
  Claim C2. For every object size \<open>S\<close> and part size \<open>P\<close> that the Segmenter accepts, the
  segment descriptors are zero-indexed and contiguous from offset 0, their lengths sum to
  \<open>S\<close>, every segment but the last has length \<open>P\<close>, and the last has length \<open>S mod P\<close>, or
  \<open>P\<close> when \<open>P\<close> divides \<open>S\<close>.
\<close>

theorem Segmenter_segments:
  assumes "Segmenter objectSize partSize 0 = Inr segs"
  shows "segs \<noteq> [] \<and>
         (\<forall>i<length segs. seg_index (segs ! i) = i) \<and>
         startOffset (segs ! 0) = 0 \<and>
         (\<forall>i. Suc i < length segs \<longrightarrow>
            startOffset (segs ! Suc i) = startOffset (segs ! i) + seg_length (segs ! i)) \<and>
         int (sum_list (map seg_length segs)) = objectSize \<and>
         (\<forall>i. Suc i < length segs \<longrightarrow> int (seg_length (segs ! i)) = partSize) \<and>
         int (seg_length (last segs)) =
           (if objectSize mod partSize = 0 then partSize else objectSize mod partSize)"
proof -
  define s p where "s = nat objectSize" and "p = nat partSize"
  from assms have cfg: "0 < partSize" "partSize \<le> objectSize"
    and segs: "segs = segments_from s p 0"
    by (auto simp: Segmenter_def s_def p_def split: if_splits)
  from cfg have p: "0 < p" "p \<le> s" and conv: "int s = objectSize" "int p = partSize"
    by (simp_all add: s_def p_def)
  from parts_count_pos [OF p] have n: "0 < parts_count s p" .
  have len: "length segs = parts_count s p"
    by (simp add: segs)
  have nth: "segs ! i = segment_at s p i" if "i < parts_count s p" for i
    using that by (simp add: segs)
  have nonempty: "segs \<noteq> []"
    using len n by auto
  have idx: "\<forall>i<length segs. seg_index (segs ! i) = i"
    by (simp add: len nth segment_at_def)
  have first: "startOffset (segs ! 0) = 0"
    by (simp add: nth n segment_at_def)
  have contig: "\<forall>i. Suc i < length segs \<longrightarrow>
      startOffset (segs ! Suc i) = startOffset (segs ! i) + seg_length (segs ! i)"
    by (simp add: len nth segment_at_def)
  have total: "int (sum_list (map seg_length segs)) = objectSize"
    using sum_seg_lengths [OF p] by (simp add: segs conv)
  have full: "\<forall>i. Suc i < length segs \<longrightarrow> int (seg_length (segs ! i)) = partSize"
    by (simp add: len nth seg_length_before_last conv)
  have "last segs = segment_at s p (parts_count s p - 1)"
    using nonempty len n by (simp add: last_conv_nth nth)
  then have "seg_length (last segs) = (if s mod p = 0 then p else s mod p)"
    using n by (simp add: segment_at_def)
  moreover have "int (s mod p) = objectSize mod partSize"
    using conv by (simp add: zmod_int)
  ultimately have final: "int (seg_length (last segs)) =
      (if objectSize mod partSize = 0 then partSize else objectSize mod partSize)"
    using conv by (auto split: if_splits)
  from nonempty idx first contig total full final show ?thesis
    by blast
qed

theorem Segmenter_segments_witness:
  "Segmenter 10 4 0 =
     Inr [\<lparr>seg_index = 0, startOffset = 0, seg_length = 4\<rparr>,
          \<lparr>seg_index = 1, startOffset = 4, seg_length = 4\<rparr>,
          \<lparr>seg_index = 2, startOffset = 8, seg_length = 2\<rparr>] \<and>
   int (sum_list (map seg_length
     [\<lparr>seg_index = 0, startOffset = 0, seg_length = 4\<rparr>,
      \<lparr>seg_index = 1, startOffset = 4, seg_length = 4\<rparr>,
      \<lparr>seg_index = 2, startOffset = 8, seg_length = 2\<rparr>])) = 10"
proof -
  have run: "Segmenter 10 4 0 =
     Inr [\<lparr>seg_index = 0, startOffset = 0, seg_length = 4\<rparr>,
          \<lparr>seg_index = 1, startOffset = 4, seg_length = 4\<rparr>,
          \<lparr>seg_index = 2, startOffset = 8, seg_length = 2\<rparr>]"
    by (simp add: Segmenter_def segments_from_def parts_count_def segment_at_def upt_conv_Cons)
  from Segmenter_segments [OF run] run show ?thesis
    by simp
qed

subsection \<open>The high-water mark\<close>

lemma contiguous_bounds: "j \<le> contiguous A j f \<and> contiguous A j f \<le> j + f"
proof (induction f arbitrary: j)
  case 0
  show ?case by simp
next
  case (Suc f)
  from Suc [of "Suc j"] show ?case by simp
qed

lemma contiguous_acked: "j \<le> i \<Longrightarrow> i < contiguous A j f \<Longrightarrow> i \<in> A"
proof (induction f arbitrary: j)
  case 0
  then show ?case by simp
next
  case (Suc f)
  show ?case
  proof (cases "j \<in> A")
    case True
    with Suc.prems have "i = j \<or> (Suc j \<le> i \<and> i < contiguous A (Suc j) f)"
      by auto
    with True Suc.IH show ?thesis by blast
  next
    case False
    with Suc.prems show ?thesis by simp
  qed
qed

lemma contiguous_stop: "contiguous A j f < j + f \<Longrightarrow> contiguous A j f \<notin> A"
proof (induction f arbitrary: j)
  case 0
  then show ?case by simp
next
  case (Suc f)
  then show ?case by (cases "j \<in> A") auto
qed

lemma contiguous_mono: "A \<subseteq> B \<Longrightarrow> contiguous A j f \<le> contiguous B j f"
proof (induction f arbitrary: j)
  case 0
  show ?case by simp
next
  case (Suc f)
  show ?case
  proof (cases "j \<in> A")
    case True
    with Suc.prems have "j \<in> B" by blast
    with True Suc.IH [OF Suc.prems, of "Suc j"] show ?thesis by simp
  next
    case False
    then show ?thesis using contiguous_bounds [of j B "Suc f"] by simp
  qed
qed

lemma high_water_le: "high_water A n \<le> n"
  using contiguous_bounds [of 0 A n] by (simp add: high_water_def)

lemma high_water_acked: "i < high_water A n \<Longrightarrow> i \<in> A"
  using contiguous_acked [of 0 i A n] by (simp add: high_water_def)

lemma high_water_pending: "i \<notin> A \<Longrightarrow> high_water A n \<le> i"
  using high_water_acked [of i A n] by (rule_tac ccontr) simp

lemma high_water_mono: "A \<subseteq> B \<Longrightarrow> high_water A n \<le> high_water B n"
  by (simp add: high_water_def contiguous_mono)

lemma high_water_prefix: "k \<le> n \<Longrightarrow> high_water {0..<k} n = k"
proof -
  assume k: "k \<le> n"
  let ?m = "high_water {0..<k} n"
  have "?m \<le> k"
    using high_water_pending [of k "{0..<k}" n] by simp
  moreover have "\<not> ?m < k"
  proof
    assume less: "?m < k"
    with k have "contiguous {0..<k} 0 n < 0 + n" by (simp add: high_water_def)
    from contiguous_stop [OF this] less show False by (simp add: high_water_def)
  qed
  ultimately show ?thesis by simp
qed

subsection \<open>Checkpoint advancement\<close>

lemma persisted_Save [simp]: "persisted (Save store key off) key = off"
  by (simp add: persisted_def Save_def)

lemma persisted_Clear [simp]: "persisted (Clear store key) key = 0"
  by (simp add: persisted_def Clear_def)

lemma acked_on_acked [simp]: "acked (fst (on_acked key S i s)) = insert i (acked (fst s))"
  by (cases s) (simp add: on_acked_def Let_def)

lemma synced_on_acked: "synced key S (on_acked key S i s)"
  by (cases s) (simp add: on_acked_def Let_def synced_def)

lemma run_acks_snoc: "run_acks key S (evs @ [i]) s = on_acked key S i (run_acks key S evs s)"
  by (simp add: run_acks_def)

lemma acked_run_acks: "acked (fst (run_acks key S evs s)) = acked (fst s) \<union> set evs"
  by (induction evs rule: rev_induct) (simp_all add: run_acks_snoc, simp add: run_acks_def)

lemma synced_run_acks: "synced key S s \<Longrightarrow> synced key S (run_acks key S evs s)"
  by (induction evs rule: rev_induct) (simp_all add: run_acks_snoc synced_on_acked, simp add: run_acks_def)

lemma resume_index_le:
  "resume_index key S st \<le> parts_count S (key_part_size key)"
proof -
  have "fst (begin_transfer key S st) \<le> S"
    by (auto simp: begin_transfer_def Load_def split: option.splits)
  then have "fst (begin_transfer key S st) div key_part_size key \<le> S div key_part_size key"
    by (rule div_le_mono)
  then show ?thesis
    by (simp add: resume_index_def parts_count_def)
qed

lemma resume_offset_aligned:
  "resume_index key S st * key_part_size key = fst (begin_transfer key S st)"
  by (auto simp: resume_index_def begin_transfer_def Load_def split: option.splits)

lemma persisted_begin_transfer:
  "persisted (checkpoints (snd (begin_transfer key S st))) key = fst (begin_transfer key S st)"
  by (auto simp: begin_transfer_def Load_def persisted_def Clear_def split: option.splits)

lemma begin_transfer_le: "fst (begin_transfer key S st) \<le> S"
  by (auto simp: begin_transfer_def Load_def split: option.splits)

lemma synced_open_session: "synced key S (open_session key S st)"
  using begin_transfer_le [of key S st]
  by (simp add: synced_def open_session_def high_water_prefix resume_index_le
        resume_offset_aligned persisted_begin_transfer)

lemma offset_run_acks:
  "GetObjectResumableUploadOffset (snd (run_acks key S evs (open_session key S st))) key =
     min (high_water ({0..<resume_index key S st} \<union> set evs)
            (parts_count S (key_part_size key)) * key_part_size key) S"
  using synced_run_acks [OF synced_open_session, of key S evs st]
  by (simp add: synced_def GetObjectResumableUploadOffset_def acked_run_acks open_session_def)

text \<open>
  Claim C1. Over the run of an upload the persisted checkpoint offset never decreases as
  acknowledgements arrive in any order, every segment that starts below the offset has
  been acknowledged (in this run, or before the resume point), and while a segment at or
  above the resume point is not acknowledged the offset stays at or below that segment's
  offset.
\<close>

theorem checkpoint_monotone_contiguous:
  "GetObjectResumableUploadOffset (snd (run_acks key S evs (open_session key S st))) key
     \<le> GetObjectResumableUploadOffset
          (snd (run_acks key S (evs @ later) (open_session key S st))) key \<and>
   (\<forall>j. j * key_part_size key <
          GetObjectResumableUploadOffset (snd (run_acks key S evs (open_session key S st))) key
        \<longrightarrow> j < resume_index key S st \<or> j \<in> set evs) \<and>
   (\<forall>j. resume_index key S st \<le> j \<and> j \<notin> set evs \<longrightarrow>
        GetObjectResumableUploadOffset (snd (run_acks key S evs (open_session key S st))) key
          \<le> j * key_part_size key)"
proof -
  let ?n = "parts_count S (key_part_size key)"
  let ?A = "\<lambda>evs. {0..<resume_index key S st} \<union> set evs"
  have mono: "high_water (?A evs) ?n \<le> high_water (?A (evs @ later)) ?n"
    by (rule high_water_mono) auto
  have "min (high_water (?A evs) ?n * key_part_size key) S
        \<le> min (high_water (?A (evs @ later)) ?n * key_part_size key) S"
    using mult_le_mono1 [OF mono, of "key_part_size key"] by (simp add: min_le_iff_disj)
  then have step: "GetObjectResumableUploadOffset (snd (run_acks key S evs (open_session key S st))) key
     \<le> GetObjectResumableUploadOffset
          (snd (run_acks key S (evs @ later) (open_session key S st))) key"
    by (simp only: offset_run_acks)
  have below: "j < resume_index key S st \<or> j \<in> set evs"
    if "j * key_part_size key <
          GetObjectResumableUploadOffset (snd (run_acks key S evs (open_session key S st))) key"
    for j
  proof -
    from that have "j * key_part_size key < high_water (?A evs) ?n * key_part_size key"
      by (simp add: offset_run_acks)
    then have "j < high_water (?A evs) ?n"
      by (rule_tac ccontr) (simp add: not_less mult_le_mono1)
    from high_water_acked [OF this] show ?thesis by auto
  qed
  have pending: "GetObjectResumableUploadOffset (snd (run_acks key S evs (open_session key S st))) key
          \<le> j * key_part_size key"
    if "resume_index key S st \<le> j \<and> j \<notin> set evs" for j
  proof -
    from that have "j \<notin> ?A evs" by auto
    from high_water_pending [OF this, of ?n]
    have "high_water (?A evs) ?n * key_part_size key \<le> j * key_part_size key"
      by (rule mult_le_mono1)
    then show ?thesis
      by (simp add: offset_run_acks min_le_iff_disj)
  qed
  from step below pending show ?thesis
    by blast
qed

theorem checkpoint_monotone_contiguous_witness:
  "GetObjectResumableUploadOffset
     (snd (run_acks (''bucket'', ''object'', 4) 20 [0, 1, 3]
        (open_session (''bucket'', ''object'', 4) 20 fresh_state))) (''bucket'', ''object'', 4)
   \<le> GetObjectResumableUploadOffset
     (snd (run_acks (''bucket'', ''object'', 4) 20 ([0, 1, 3] @ [2, 4])
        (open_session (''bucket'', ''object'', 4) 20 fresh_state))) (''bucket'', ''object'', 4) \<and>
   GetObjectResumableUploadOffset
     (snd (run_acks (''bucket'', ''object'', 4) 20 [0, 1, 3]
        (open_session (''bucket'', ''object'', 4) 20 fresh_state))) (''bucket'', ''object'', 4)
   \<le> 2 * key_part_size (''bucket'', ''object'', 4) \<and>
   GetObjectResumableUploadOffset
     (snd (run_acks (''bucket'', ''object'', 4) 20 [0, 1, 3]
        (open_session (''bucket'', ''object'', 4) 20 fresh_state))) (''bucket'', ''object'', 4) = 8 \<and>
   GetObjectResumableUploadOffset
     (snd (run_acks (''bucket'', ''object'', 4) 20 [0, 1, 3, 2]
        (open_session (''bucket'', ''object'', 4) 20 fresh_state))) (''bucket'', ''object'', 4) = 16 \<and>
   GetObjectResumableUploadOffset
     (snd (run_acks (''bucket'', ''object'', 4) 20 [0, 1, 3, 2, 4]
        (open_session (''bucket'', ''object'', 4) 20 fresh_state))) (''bucket'', ''object'', 4) = 20"
proof -
  let ?key = "(''bucket'', ''object'', 4 :: nat)"
  have idx: "resume_index ?key 20 fresh_state = 0"
    by (simp add: resume_index_def begin_transfer_def Load_def fresh_state_def)
  have pending: "resume_index ?key 20 fresh_state \<le> 2 \<and> 2 \<notin> set [0, 1, 3 :: nat]"
    by (simp add: idx)
  have offsets:
    "GetObjectResumableUploadOffset
       (snd (run_acks ?key 20 [0, 1, 3] (open_session ?key 20 fresh_state))) ?key = 8"
    "GetObjectResumableUploadOffset
       (snd (run_acks ?key 20 [0, 1, 3, 2] (open_session ?key 20 fresh_state))) ?key = 16"
    "GetObjectResumableUploadOffset
       (snd (run_acks ?key 20 [0, 1, 3, 2, 4] (open_session ?key 20 fresh_state))) ?key = 20"
    by code_simp+
  from checkpoint_monotone_contiguous [of ?key 20 "[0, 1, 3]" fresh_state "[2, 4]"] pending offsets
  show ?thesis by blast
qed

subsection \<open>Upload\<close>

lemma attempt_send_no_fault [simp]: "attempt_send (\<lambda>a. None) a n = None"
  by (cases n) simp_all

lemma send_segment_no_faults [simp]: "send_segment DefaultUploadSegment no_faults limit i = None"
  by (simp add: send_segment_def DefaultUploadSegment_def no_faults_def)


lemma effective_part_size_pos [simp]: "0 < effective_part_size partSize"
  by (simp add: effective_part_size_def DefaultPartSize_def)

lemma key_part_size_key [simp]: "key_part_size (b, ob, p) = p"
  by (simp add: key_part_size_def)

lemma parts_count_short: "s < p \<Longrightarrow> parts_count s p = (if s = 0 then 0 else 1)"
  by (simp add: parts_count_def)

lemma transfer_plan_segments:
  assumes "0 < p"
  shows "transfer_plan s p k = Inr (segments_from s p k)"
proof (cases "s < p")
  case True
  show ?thesis
  proof (cases "k = 0 \<and> 0 < s")
    case True
    with \<open>s < p\<close> have "segments_from s p k = [\<lparr>seg_index = 0, startOffset = 0, seg_length = s\<rparr>]"
      by (simp add: segments_from_def parts_count_short segment_at_def)
    with True \<open>s < p\<close> show ?thesis by (simp add: transfer_plan_def)
  next
    case False
    with \<open>s < p\<close> have "segments_from s p k = []"
      by (auto simp: segments_from_def parts_count_short)
    with False \<open>s < p\<close> show ?thesis by (auto simp: transfer_plan_def)
  qed
next
  case False
  with assms show ?thesis by (simp add: transfer_plan_def Segmenter_def)
qed

lemma load_checkpoint_Return:
  "0 < key_part_size key \<Longrightarrow> load_checkpoint store key S = Return (Load store key S)"
  by (simp add: load_checkpoint_def split: option.splits)

lemma slice_bytes_segment:
  assumes "0 < p" "i < parts_count (length content) p"
  shows "slice_bytes content (startOffset (segment_at (length content) p i))
           (seg_length (segment_at (length content) p i)) =
         Return (take (seg_length (segment_at (length content) p i)) (drop (i * p) content))"
  using segment_end [OF assms] by (simp add: slice_bytes_def segment_at_def)
















lemma upload_inv_restart:
  assumes "resume_index key (length content) st = 0"
  shows "upload_inv key content 0 (open_session key (length content) st)"
  using assms resume_offset_aligned [of key "length content" st]
    persisted_begin_transfer [of key "length content" st]
  by (simp add: upload_inv_def open_session_def)




lemma PutObject_unfold:
  "PutObject hook net limit b ob content partSize st =
     (case upload_segments hook net limit (b, ob, effective_part_size partSize) content
             (segments_from (length content) (effective_part_size partSize)
                (resume_index (b, ob, effective_part_size partSize) (length content) st))
             (open_session (b, ob, effective_part_size partSize) (length content) st) of
        Panic \<Rightarrow> Panic
      | Return (Some err, sess, st2) \<Rightarrow> Return (Some err, st2)
      | Return (None, sess, st2) \<Rightarrow>
          Return (None, st2\<lparr>checkpoints :=
                    Clear (checkpoints st2) (b, ob, effective_part_size partSize)\<rparr>))"
  by (simp add: PutObject_def Let_def load_checkpoint_Return transfer_plan_segments)








lemma upload_segments_total:
  assumes p: "0 < p"
  shows "\<exists>r s'. upload_segments hook net limit key content
                   (segments_from (length content) p k) s = Return (r, s')"
proof (induction "parts_count (length content) p - k" arbitrary: k s)
  case 0
  then show ?case by simp
next
  case (Suc d)
  from Suc.hyps(2) have less: "k < parts_count (length content) p" by simp
  from Suc.hyps(2) have d: "d = parts_count (length content) p - Suc k" by simp
  let ?seg = "segment_at (length content) p k"
  have idx: "seg_index ?seg = k" by (simp add: segment_at_def)
  note slice = slice_bytes_segment [OF p less]
  show ?case
  proof (cases "send_segment hook net limit k")
    case None
    with Suc.hyps(1) [OF d] show ?thesis
      by (simp add: segments_from_Cons [OF less] slice idx)
  next
    case (Some e)
    then show ?thesis
      by (simp add: segments_from_Cons [OF less] slice idx)
  qed
qed

lemma PutObject_total:
  "\<exists>r st'. PutObject hook net limit b ob content partSize st = Return (r, st')"
proof -
  from upload_segments_total [of "effective_part_size partSize" hook net limit
      "(b, ob, effective_part_size partSize)" content
      "resume_index (b, ob, effective_part_size partSize) (length content) st"
      "open_session (b, ob, effective_part_size partSize) (length content) st"]
  obtain r s' where "upload_segments hook net limit (b, ob, effective_part_size partSize) content
      (segments_from (length content) (effective_part_size partSize)
         (resume_index (b, ob, effective_part_size partSize) (length content) st))
      (open_session (b, ob, effective_part_size partSize) (length content) st) = Return (r, s')"
    by auto
  then show ?thesis
    by (cases s'; cases r) (simp_all add: PutObject_unfold)
qed






subsection \<open>Download\<close>





lemma fetch_segment_no_faults [simp]:
  "fetch_segment DefaultDownloadSegmentHook no_faults limit i = None"
  by (simp add: fetch_segment_def DefaultDownloadSegmentHook_def no_faults_def)






lemma download_chunks_all_fetched:
  assumes "download_chunks hook net limit key obj fileName start (segments_from n p k) st =
             (None, st')"
    and "k \<le> j" and "j < parts_count n p"
  shows "fetch_segment hook net limit j = None"
  using assms
proof (induction "parts_count n p - k" arbitrary: k st)
  case 0
  then show ?case by simp
next
  case (Suc d)
  from Suc.hyps(2) have less: "k < parts_count n p" by simp
  from Suc.hyps(2) have d: "d = parts_count n p - Suc k" by simp
  have idx: "seg_index (segment_at n p k) = k" by (simp add: segment_at_def)
  from Suc.prems(1) have here: "fetch_segment hook net limit k = None"
    by (auto simp: segments_from_Cons [OF less] idx split: option.splits)
  show ?case
  proof (cases "j = k")
    case True
    with here show ?thesis by simp
  next
    case False
    with Suc.prems(2) have j: "Suc k \<le> j" by simp
    from Suc.prems(1) here obtain st2 where
      "download_chunks hook net limit key obj fileName start (segments_from n p (Suc k)) st2 =
         (None, st')"
      by (auto simp: segments_from_Cons [OF less] idx Let_def split: if_splits)
    from Suc.hyps(1) [OF d this j Suc.prems(3)] show ?thesis .
  qed
qed












subsection \<open>The size of the test object\<close>

lemma decimal_digits_range:
  "10 ^ k \<le> n \<Longrightarrow> n < 10 ^ Suc k \<Longrightarrow> decimal_digits n = Suc k"
proof (induction k arbitrary: n)
  case 0
  then show ?case by (simp add: decimal_digits.simps)
next
  case (Suc k)
  from Suc.prems have "10 ^ k \<le> n div 10" and "n div 10 < 10 ^ Suc k"
    by (simp_all add: less_mult_imp_div_less le_div_geq)
  then have rec: "decimal_digits (n div 10) = Suc k" by (rule Suc.IH)
  have one: "(1::nat) \<le> 10 ^ k" by simp
  from Suc.prems(1) have "10 * 10 ^ k \<le> n" by simp
  with one have "\<not> n < 10" by linarith
  with rec show ?case
    by (subst decimal_digits.simps) simp
qed

lemma sum_list_const_from: "(\<And>i. a \<le> i \<Longrightarrow> i < b \<Longrightarrow> f i = (c::nat)) \<Longrightarrow>
  sum_list (map f [a..<b]) = (b - a) * c"
proof (induction b)
  case 0
  show ?case by simp
next
  case (Suc b)
  show ?case
  proof (cases "a \<le> b")
    case True
    with Suc show ?thesis by (simp add: Suc_diff_le)
  next
    case False
    then show ?thesis by simp
  qed
qed

lemma decimal_digits_small: "i < 100000 \<Longrightarrow> decimal_digits i \<le> 5"
proof -
  assume small: "i < 100000"
  consider "i < 10" | "10 \<le> i \<and> i < 100" | "100 \<le> i \<and> i < 1000"
    | "1000 \<le> i \<and> i < 10000" | "10000 \<le> i \<and> i < 100000"
    using small by linarith
  then show ?thesis
  proof cases
    case 1
    then show ?thesis by (simp add: decimal_digits.simps)
  next
    case 2
    with decimal_digits_range [of 1 i] show ?thesis by simp
  next
    case 3
    with decimal_digits_range [of 2 i] show ?thesis by simp
  next
    case 4
    with decimal_digits_range [of 3 i] show ?thesis by simp
  next
    case 5
    with decimal_digits_range [of 4 i] show ?thesis by simp
  qed
qed

lemma line_length_5: "i < 100000 \<Longrightarrow> line_length r i = 9 + r"
  using decimal_digits_small [of i] by (simp add: line_length_def)

lemma line_length_6: "100000 \<le> i \<Longrightarrow> i < 1000000 \<Longrightarrow> line_length r i = 10 + r"
  using decimal_digits_range [of 5 i] by (simp add: line_length_def)

lemma line_length_7: "1000000 \<le> i \<Longrightarrow> i < 10000000 \<Longrightarrow> line_length r i = 11 + r"
  using decimal_digits_range [of 6 i] by (simp add: line_length_def)

lemma test_lines_split:
  "[0..<1024 * 3000] = [0..<100000] @ [100000..<1000000] @ [1000000..<3072000::nat]"
proof -
  have e1: "(100000::nat) + 2972000 = 1024 * 3000" and e2: "(1000000::nat) = 100000 + 900000"
    and e3: "(3072000::nat) = 1000000 + 2072000"
    by simp_all
  have "[0..<100000 + 2972000] = [0..<100000] @ [100000..<100000 + 2972000::nat]"
    by (rule upt_add_eq_append) (rule le0)
  moreover have "[100000..<100000 + (900000 + 2072000)] =
      [100000..<100000 + 900000] @ [100000 + 900000..<100000 + 900000 + 2072000::nat]"
    using upt_add_eq_append [of 100000 "100000 + 900000" 2072000]
    by (simp only: add.assoc le_add1)
  moreover have e4: "(2972000::nat) = 900000 + 2072000" by simp
  ultimately show ?thesis
    by (simp only: e1 [symmetric] e4 e2 e3 add.assoc)
qed

lemma buffer_length_eq: "buffer_length r = 32692000 + 3072000 * r"
proof -
  have a: "sum_list (map (line_length r) [0..<100000]) = (100000 - 0) * (9 + r)"
    by (rule sum_list_const_from) (rule line_length_5)
  have b: "sum_list (map (line_length r) [100000..<1000000]) = (1000000 - 100000) * (10 + r)"
    by (rule sum_list_const_from) (rule line_length_6)
  have c: "sum_list (map (line_length r) [1000000..<3072000]) = (3072000 - 1000000) * (11 + r)"
    by (rule sum_list_const_from) (rule line_length_7, simp_all)
  have "buffer_length r = (100000 - 0) * (9 + r) + ((1000000 - 100000) * (10 + r) +
      (3072000 - 1000000) * (11 + r))"
    by (simp only: buffer_length_def test_lines_split map_append sum_list_append a b c)
  then show ?thesis
    by (simp add: algebra_simps)
qed

text \<open>
  With 20 random characters per line the test object has 94,132,000 bytes, and with at
  least one it is larger than the part size of 32 MiB that the test uploads with: the test
  runs the Segmenter on an object that spans three parts.
\<close>

lemma buffer_length_test: "buffer_length 20 = 94132000"
  by (simp add: buffer_length_eq)

lemma buffer_length_parts:
  "(1024 * 1024 * 32 :: int) < int (buffer_length 20)"
  "parts_count (buffer_length 20) (1024 * 1024 * 32) = 3"
  by (simp_all add: buffer_length_eq parts_count_def)

end
